theory Spec2Isabelle
  imports Main
begin

section \<open>Text\<close>

text \<open>
  A Python \<open>str\<close> is a sequence of Unicode code points; it is modelled as a list of
  natural numbers, so that \<open>len\<close> counts what Python counts and the en dash (U+2013)
  and the em dash (U+2014) of the patterns are single characters. \<open>ustr\<close> embeds an
  ASCII literal.

  The white-space table (\<open>str.isspace\<close>, also the class \<open>\s\<close> of \<open>re\<close>) and the
  line boundaries of \<open>str.splitlines\<close> are those of Python, on every code point.
\<close>

type_synonym str = "nat list"

definition ustr :: "string \<Rightarrow> str" where
  "ustr s = map of_char s"

definition is_space :: "nat \<Rightarrow> bool" where
  "is_space c \<longleftrightarrow>
     (9 \<le> c \<and> c \<le> 13) \<or> (28 \<le> c \<and> c \<le> 32) \<or> c = 0x85 \<or> c = 0xA0 \<or> c = 0x1680
     \<or> (0x2000 \<le> c \<and> c \<le> 0x200A) \<or> c = 0x2028 \<or> c = 0x2029 \<or> c = 0x202F
     \<or> c = 0x205F \<or> c = 0x3000"

definition is_linebreak :: "nat \<Rightarrow> bool" where
  "is_linebreak c \<longleftrightarrow>
     (10 \<le> c \<and> c \<le> 13) \<or> (28 \<le> c \<and> c \<le> 30) \<or> c = 0x85 \<or> c = 0x2028 \<or> c = 0x2029"

text \<open>
  The other tables of the Unicode database that the program consults, through \<open>re\<close> and
  through \<open>str.lower\<close> and \<open>str.upper\<close>, are not part of the repository and change with
  the version of Python. They are a parameter of the model:
  \<^item> \<open>word_char c\<close>: \<open>c\<close> is a word character for \<open>\w\<close> and \<open>\b\<close> (alphanumeric, or the
    underscore);
  \<^item> \<open>case_variants c\<close>: the characters other than \<open>c\<close> itself that, written in a pattern,
    match \<open>c\<close> under \<open>re.IGNORECASE\<close>;
  \<^item> \<open>str_lower s\<close> and \<open>str_upper s\<close>: \<open>s.lower()\<close> and \<open>s.upper()\<close>, as functions of
    the whole string (a character can map to several, and to different ones by its
    position).
  Every function below that depends on these tables takes them as its first argument.
\<close>

record unidata =
  word_char :: "nat \<Rightarrow> bool"
  case_variants :: "nat \<Rightarrow> nat list"
  str_lower :: "str \<Rightarrow> str"
  str_upper :: "str \<Rightarrow> str"

text \<open>
  The tables restricted to ASCII: the letters \<open>A\<close> to \<open>Z\<close> and \<open>a\<close> to \<open>z\<close> are the
  only characters with a case, and they, the digits and the underscore the only word
  characters. On a text of ASCII characters these are the tables of every version of
  Python; the theorems that evaluate the program on a given ASCII text use them.
\<close>

definition is_word :: "nat \<Rightarrow> bool" where
  "is_word c \<longleftrightarrow>
     (48 \<le> c \<and> c \<le> 57) \<or> (65 \<le> c \<and> c \<le> 90) \<or> c = 95 \<or> (97 \<le> c \<and> c \<le> 122)"

definition lower :: "nat \<Rightarrow> nat" where
  "lower c = (if 65 \<le> c \<and> c \<le> 90 then c + 32 else c)"

definition upper :: "nat \<Rightarrow> nat" where
  "upper c = (if 97 \<le> c \<and> c \<le> 122 then c - 32 else c)"

definition ascii_tables :: unidata where
  "ascii_tables =
     \<lparr>word_char = is_word, case_variants = (\<lambda>c. [lower c, upper c]),
      str_lower = map lower, str_upper = map upper\<rparr>"

text \<open>\<open>s.strip()\<close> and \<open>s.strip(chars)\<close>.\<close>

definition strip :: "str \<Rightarrow> str" where
  "strip s = rev (dropWhile is_space (rev (dropWhile is_space s)))"

definition strip_chars :: "str \<Rightarrow> str \<Rightarrow> str" where
  "strip_chars cs s =
     rev (dropWhile (\<lambda>c. c \<in> set cs) (rev (dropWhile (\<lambda>c. c \<in> set cs) s)))"

text \<open>\<open>sep.join(xs)\<close>.\<close>

fun join :: "str \<Rightarrow> str list \<Rightarrow> str" where
  "join sep [] = []"
| "join sep [x] = x"
| "join sep (x # y # ys) = x @ sep @ join sep (y # ys)"

text \<open>\<open>sub in s\<close>.\<close>

fun contains :: "str \<Rightarrow> str \<Rightarrow> bool" where
  "contains sub [] = (sub = [])"
| "contains sub (c # cs) = (take (length sub) (c # cs) = sub \<or> contains sub cs)"

text \<open>
  \<open>s.splitlines()\<close>: the text is cut at every line boundary, \<open>\r\n\<close> counting as one, and
  a last line is kept only when it is not empty. \<open>cur\<close> is the line being read.
\<close>

fun splitlines_from :: "str \<Rightarrow> str \<Rightarrow> str list" where
  "splitlines_from cur [] = (if cur = [] then [] else [cur])"
| "splitlines_from cur [c] =
     (if is_linebreak c then [cur] else [cur @ [c]])"
| "splitlines_from cur (c # d # ds) =
     (if c = 13 \<and> d = 10 then cur # splitlines_from [] ds
      else if is_linebreak c then cur # splitlines_from [] (d # ds)
      else splitlines_from (cur @ [c]) (d # ds))"

definition splitlines :: "str \<Rightarrow> str list" where
  "splitlines s = splitlines_from [] s"

text \<open>
  \<open>s.split(sep)\<close> for a separator that is not empty (Python raises \<open>ValueError\<close> on an
  empty one; every separator of the program is a constant). \<open>cur\<close> is the piece being read;
  the result always has a last piece.
\<close>

function split_from :: "str \<Rightarrow> str \<Rightarrow> str \<Rightarrow> str list" where
  "split_from sep cur [] = [cur]"
| "split_from sep cur (c # cs) =
     (if sep \<noteq> [] \<and> take (length sep) (c # cs) = sep
      then cur # split_from sep [] (drop (length sep) (c # cs))
      else split_from sep (cur @ [c]) cs)"
  by pat_completeness auto
termination
  by (relation "measure (\<lambda>(sep, cur, s). length s)") auto

definition py_split :: "str \<Rightarrow> str \<Rightarrow> str list" where
  "py_split sep s = split_from sep [] s"

section \<open>Regular expressions\<close>

text \<open>
  The patterns of the program are kept as data and run by a backtracking matcher with the
  priorities of Python's \<open>re\<close>: the alternatives of \<open>|\<close> are tried from left to right, and
  \<open>*\<close>, \<open>+\<close> and \<open>?\<close> are greedy. A character class is a list of items; \<open>RSym [CChar c]\<close> is
  the literal \<open>c\<close>.
\<close>

datatype citem = CChar nat | CRange nat nat | CSpace

datatype regex =
    REps
  | RSym "citem list"
  | RDot
  | RBol
  | REol
  | RWordB
  | RSeq regex regex
  | RAlt regex regex
  | RStar regex
  | RGroup nat regex

text \<open>
  A matcher state: the code point just before the current position (\<open>None\<close> at the start
  of the string), the text still to be read, and the groups captured so far, the latest
  first.
\<close>

record mstate =
  prev :: "nat option"
  rest :: str
  caps :: "(nat \<times> str) list"

fun item_has :: "citem \<Rightarrow> nat \<Rightarrow> bool" where
  "item_has (CChar x) c = (c = x)"
| "item_has (CRange lo hi) c = (lo \<le> c \<and> c \<le> hi)"
| "item_has CSpace c = is_space c"

text \<open>
  Under \<open>re.IGNORECASE\<close> (\<open>ic\<close>) a character or a range of a class also matches a
  character through its case variants. The class \<open>\s\<close> is tested on the character itself:
  in the patterns of the program it stands alone or beside characters without a case.
\<close>

fun item_matches :: "unidata \<Rightarrow> bool \<Rightarrow> citem \<Rightarrow> nat \<Rightarrow> bool" where
  "item_matches U ic CSpace c = is_space c"
| "item_matches U ic it c = (item_has it c \<or> (ic \<and> list_ex (item_has it) (case_variants U c)))"

definition in_class :: "unidata \<Rightarrow> bool \<Rightarrow> citem list \<Rightarrow> nat \<Rightarrow> bool" where
  "in_class U ic items c = list_ex (\<lambda>it. item_matches U ic it c) items"

definition word_opt :: "unidata \<Rightarrow> nat option \<Rightarrow> bool" where
  "word_opt U p = (case p of None \<Rightarrow> False | Some c \<Rightarrow> word_char U c)"

definition next_cp :: "str \<Rightarrow> nat option" where
  "next_cp s = (case s of [] \<Rightarrow> None | c # _ \<Rightarrow> Some c)"

text \<open>
  \<open>rmatch U ic r st\<close> lists the states in which a match of \<open>r\<close> from \<open>st\<close> can end, in the
  order in which backtracking reaches them. \<open>.\<close> excludes the newline, \<open>^\<close> holds at the
  start of the string, \<open>$\<close> at its end or before a final newline, \<open>\b\<close> between a word
  character and anything else. An iteration of \<open>*\<close> that reads nothing is not repeated.
\<close>

function rmatch :: "unidata \<Rightarrow> bool \<Rightarrow> regex \<Rightarrow> mstate \<Rightarrow> mstate list" where
  "rmatch U ic REps st = [st]"
| "rmatch U ic (RSym items) st =
     (case rest st of [] \<Rightarrow> []
      | c # cs \<Rightarrow> if in_class U ic items c then [st\<lparr>prev := Some c, rest := cs\<rparr>] else [])"
| "rmatch U ic RDot st =
     (case rest st of [] \<Rightarrow> []
      | c # cs \<Rightarrow> if c \<noteq> 10 then [st\<lparr>prev := Some c, rest := cs\<rparr>] else [])"
| "rmatch U ic RBol st = (if prev st = None then [st] else [])"
| "rmatch U ic REol st = (if rest st = [] \<or> rest st = [10] then [st] else [])"
| "rmatch U ic RWordB st =
     (if word_opt U (prev st) \<noteq> word_opt U (next_cp (rest st)) then [st] else [])"
| "rmatch U ic (RSeq a b) st = concat (map (rmatch U ic b) (rmatch U ic a st))"
| "rmatch U ic (RAlt a b) st = rmatch U ic a st @ rmatch U ic b st"
| "rmatch U ic (RStar a) st =
     concat (map (\<lambda>st'. if length (rest st') < length (rest st)
                         then rmatch U ic (RStar a) st' else [])
                 (rmatch U ic a st)) @ [st]"
| "rmatch U ic (RGroup n a) st =
     map (\<lambda>st'. st'\<lparr>caps := (n, take (length (rest st) - length (rest st')) (rest st)) # caps st'\<rparr>)
         (rmatch U ic a st)"
  by pat_completeness auto
termination
  by (relation "inv_image (less_than <*lex*> less_than)
                  (\<lambda>(U, ic, r, st). (size r, length (rest st)))") auto

text \<open>
  The equation of \<open>*\<close> mentions \<open>rmatch\<close> of the same pattern again, so it is not a
  rewrite rule by default.
\<close>

lemmas rmatch_star = rmatch.simps(9)

declare rmatch.simps(9) [simp del]

text \<open>The derived operators: \<open>r+\<close>, \<open>r?\<close>, a literal word, a sequence, a choice.\<close>

definition Many1 :: "regex \<Rightarrow> regex" where
  "Many1 r = RSeq r (RStar r)"

definition Opt :: "regex \<Rightarrow> regex" where
  "Opt r = RAlt r REps"

definition Lit :: "string \<Rightarrow> regex" where
  "Lit s = foldr (\<lambda>c r. RSeq (RSym [CChar (of_char c)]) r) s REps"

definition Seqs :: "regex list \<Rightarrow> regex" where
  "Seqs rs = foldr RSeq rs REps"

definition Alts :: "regex list \<Rightarrow> regex" where
  "Alts rs = foldr RAlt rs (RSym [])"

definition first_match :: "unidata \<Rightarrow> bool \<Rightarrow> regex \<Rightarrow> mstate \<Rightarrow> mstate option" where
  "first_match U ic r st = (case rmatch U ic r st of [] \<Rightarrow> None | m # _ \<Rightarrow> Some m)"

text \<open>\<open>m.group(n)\<close>, for a group that took part in the match.\<close>

definition group :: "mstate \<Rightarrow> nat \<Rightarrow> str" where
  "group m n = (case map_of (caps m) n of None \<Rightarrow> [] | Some g \<Rightarrow> g)"

text \<open>\<open>pattern.match(s)\<close>: a match at the start of \<open>s\<close>.\<close>

definition re_match :: "unidata \<Rightarrow> bool \<Rightarrow> regex \<Rightarrow> str \<Rightarrow> mstate option" where
  "re_match U ic r s = first_match U ic r \<lparr>prev = None, rest = s, caps = []\<rparr>"

text \<open>\<open>pattern.search(s)\<close>: the first position, from the left, with a match.\<close>

fun re_search_from :: "unidata \<Rightarrow> bool \<Rightarrow> regex \<Rightarrow> nat option \<Rightarrow> str \<Rightarrow> mstate option" where
  "re_search_from U ic r p [] = first_match U ic r \<lparr>prev = p, rest = [], caps = []\<rparr>"
| "re_search_from U ic r p (c # cs) =
     (case first_match U ic r \<lparr>prev = p, rest = c # cs, caps = []\<rparr> of
        Some m \<Rightarrow> Some m
      | None \<Rightarrow> re_search_from U ic r (Some c) cs)"

definition re_search :: "unidata \<Rightarrow> bool \<Rightarrow> regex \<Rightarrow> str \<Rightarrow> mstate option" where
  "re_search U ic r s = re_search_from U ic r None s"

text \<open>
  The scanning functions \<open>findall\<close>, \<open>sub\<close> and \<open>split\<close> go through the text from left to
  right and take, at each position, the first match that reads something; none of the
  patterns they are used with can match the empty string.

  \<open>pattern.findall(s)\<close> for a pattern with one group: the texts of group 1.
\<close>

function re_findall_from :: "unidata \<Rightarrow> bool \<Rightarrow> regex \<Rightarrow> nat option \<Rightarrow> str \<Rightarrow> str list" where
  "re_findall_from U ic r p [] = []"
| "re_findall_from U ic r p (c # cs) =
     (case first_match U ic r \<lparr>prev = p, rest = c # cs, caps = []\<rparr> of
        None \<Rightarrow> re_findall_from U ic r (Some c) cs
      | Some m \<Rightarrow>
          if length (rest m) < length (c # cs)
          then group m 1 # re_findall_from U ic r (prev m) (rest m)
          else re_findall_from U ic r (Some c) cs)"
  by pat_completeness auto
termination
  by (relation "measure (\<lambda>(U, ic, r, p, s). length s)") auto

definition re_findall :: "unidata \<Rightarrow> bool \<Rightarrow> regex \<Rightarrow> str \<Rightarrow> str list" where
  "re_findall U ic r s = re_findall_from U ic r None s"

text \<open>\<open>re.sub(pattern, repl, s)\<close> for a replacement without group references.\<close>

function re_sub_from :: "unidata \<Rightarrow> bool \<Rightarrow> regex \<Rightarrow> str \<Rightarrow> nat option \<Rightarrow> str \<Rightarrow> str" where
  "re_sub_from U ic r repl p [] = []"
| "re_sub_from U ic r repl p (c # cs) =
     (case first_match U ic r \<lparr>prev = p, rest = c # cs, caps = []\<rparr> of
        None \<Rightarrow> c # re_sub_from U ic r repl (Some c) cs
      | Some m \<Rightarrow>
          if length (rest m) < length (c # cs)
          then repl @ re_sub_from U ic r repl (prev m) (rest m)
          else c # re_sub_from U ic r repl (Some c) cs)"
  by pat_completeness auto
termination
  by (relation "measure (\<lambda>(U, ic, r, repl, p, s). length s)") auto

definition re_sub :: "unidata \<Rightarrow> bool \<Rightarrow> regex \<Rightarrow> str \<Rightarrow> str \<Rightarrow> str" where
  "re_sub U ic r repl s = re_sub_from U ic r repl None s"

text \<open>
  \<open>re.split(pattern, s)\<close> for a pattern with \<open>ng\<close> groups: the pieces between the matches,
  each match leaving the texts of its groups between two pieces. \<open>cur\<close> is the piece being
  read; the result always has a last piece.
\<close>

function re_split_from :: "unidata \<Rightarrow> bool \<Rightarrow> regex \<Rightarrow> nat \<Rightarrow> nat option \<Rightarrow> str \<Rightarrow> str \<Rightarrow> str list" where
  "re_split_from U ic r ng p cur [] = [cur]"
| "re_split_from U ic r ng p cur (c # cs) =
     (case first_match U ic r \<lparr>prev = p, rest = c # cs, caps = []\<rparr> of
        None \<Rightarrow> re_split_from U ic r ng (Some c) (cur @ [c]) cs
      | Some m \<Rightarrow>
          if length (rest m) < length (c # cs)
          then cur # map (group m) [1 ..< Suc ng] @ re_split_from U ic r ng (prev m) [] (rest m)
          else re_split_from U ic r ng (Some c) (cur @ [c]) cs)"
  by pat_completeness auto
termination
  by (relation "measure (\<lambda>(U, ic, r, ng, p, cur, s). length s)") auto

definition re_split :: "unidata \<Rightarrow> bool \<Rightarrow> regex \<Rightarrow> nat \<Rightarrow> str \<Rightarrow> str list" where
  "re_split U ic r ng s = re_split_from U ic r ng None [] s"

section \<open>The patterns of \<open>app.py\<close>\<close>

definition sp :: regex where
  "sp = RSym [CSpace]"

text \<open>The class \<open>[:\-\u2013\u2014]\<close>.\<close>

definition dash_class :: "citem list" where
  "dash_class = [CChar (of_char CHR '':''), CChar (of_char CHR ''-''), CChar 0x2013, CChar 0x2014]"

text \<open>\<open>keywords?\<close> and \<open>index\s*terms?\<close>.\<close>

definition keywords_word :: regex where
  "keywords_word = Seqs [Lit ''keyword'', Opt (Lit ''s'')]"

definition index_terms_word :: regex where
  "index_terms_word = Seqs [Lit ''index'', RStar sp, Lit ''term'', Opt (Lit ''s'')]"

text \<open>\<open>^\s*abstract\b[:\-\u2013\u2014]?\s*$\<close>, with \<open>re.IGNORECASE\<close>.\<close>

definition ABSTRACT_HEAD_PAT :: regex where
  "ABSTRACT_HEAD_PAT =
     Seqs [RBol, RStar sp, Lit ''abstract'', RWordB, Opt (RSym dash_class), RStar sp, REol]"

text \<open>\<open>^\s*abstract\b[:\-\u2013\u2014]?\s*(.+)$\<close>, with \<open>re.IGNORECASE\<close>.\<close>

definition ABSTRACT_INLINE_PAT :: regex where
  "ABSTRACT_INLINE_PAT =
     Seqs [RBol, RStar sp, Lit ''abstract'', RWordB, Opt (RSym dash_class), RStar sp,
           RGroup 1 (Many1 RDot), REol]"

text \<open>\<open>^\s*(keywords?|index\s*terms?)\b\s*[:\-\u2013\u2014]?\s*(.*)$\<close>, with \<open>re.IGNORECASE\<close>.\<close>

definition KEYWORDS_PAT :: regex where
  "KEYWORDS_PAT =
     Seqs [RBol, RStar sp, RGroup 1 (Alts [keywords_word, index_terms_word]), RWordB, RStar sp,
           Opt (RSym dash_class), RStar sp, RGroup 2 (RStar RDot), REol]"

text \<open>
  \<open>^\s*(keywords?|index\s*terms?|introduction|background|1[\.\s]|I[\.\s])\b\<close>, with
  \<open>re.IGNORECASE\<close>.
\<close>

definition NEXT_SECTION_PAT :: regex where
  "NEXT_SECTION_PAT =
     Seqs [RBol, RStar sp,
           RGroup 1 (Alts [keywords_word, index_terms_word, Lit ''introduction'', Lit ''background'',
                           Seqs [Lit ''1'', RSym [CChar (of_char CHR ''.''), CSpace]],
                           Seqs [Lit ''I'', RSym [CChar (of_char CHR ''.''), CSpace]]]),
           RWordB]"

text \<open>\<open>\b[A-Z0-9._%+-]+@[A-Z0-9.-]+\.[A-Z]{2,}\b\<close>, with \<open>re.IGNORECASE\<close>.\<close>

definition EMAIL_PAT :: regex where
  "EMAIL_PAT =
     Seqs [RWordB,
           Many1 (RSym [CRange (of_char CHR ''A'') (of_char CHR ''Z''),
                        CRange (of_char CHR ''0'') (of_char CHR ''9''),
                        CChar (of_char CHR ''.''), CChar (of_char CHR ''_''),
                        CChar (of_char CHR ''%''), CChar (of_char CHR ''+''),
                        CChar (of_char CHR ''-'')]),
           Lit ''@'',
           Many1 (RSym [CRange (of_char CHR ''A'') (of_char CHR ''Z''),
                        CRange (of_char CHR ''0'') (of_char CHR ''9''),
                        CChar (of_char CHR ''.''), CChar (of_char CHR ''-'')]),
           Lit ''.'',
           RSym [CRange (of_char CHR ''A'') (of_char CHR ''Z'')],
           RSym [CRange (of_char CHR ''A'') (of_char CHR ''Z'')],
           RStar (RSym [CRange (of_char CHR ''A'') (of_char CHR ''Z'')]),
           RWordB]"

text \<open>\<open>\b([A-Z][a-z]+(?:\s+[A-Z]\.)?(?:\s+[A-Z][a-z]+)+)\b\<close>, case-sensitive.\<close>

definition upper_letter :: regex where
  "upper_letter = RSym [CRange (of_char CHR ''A'') (of_char CHR ''Z'')]"

definition lower_letter :: regex where
  "lower_letter = RSym [CRange (of_char CHR ''a'') (of_char CHR ''z'')]"

definition NAME_PAT :: regex where
  "NAME_PAT =
     Seqs [RWordB,
           RGroup 1 (Seqs [upper_letter, Many1 lower_letter,
                           Opt (Seqs [Many1 sp, upper_letter, Lit ''.'']),
                           Many1 (Seqs [Many1 sp, upper_letter, Many1 lower_letter])]),
           RWordB]"

text \<open>
  The pattern of the affiliation filter of \<open>find_authors\<close>,
  \<open>\b(university|department|dept\.?|institute|laborator|school|college|center|centre)\b\<close>,
  with \<open>re.IGNORECASE\<close>.
\<close>

definition AFFILIATION_PAT :: regex where
  "AFFILIATION_PAT =
     Seqs [RWordB,
           RGroup 1 (Alts [Lit ''university'', Lit ''department'', Seqs [Lit ''dept'', Opt (Lit ''.'')],
                           Lit ''institute'', Lit ''laborator'', Lit ''school'', Lit ''college'',
                           Lit ''center'', Lit ''centre'']),
           RWordB]"

text \<open>
  The pattern at which \<open>find_abstract\<close> cuts the joined abstract,
  \<open>\b(keywords?|index\s*terms?)\b[:\-\u2013\u2014]?\<close>, with \<open>re.IGNORECASE\<close>.
\<close>

definition KEYWORDS_MARKER_PAT :: regex where
  "KEYWORDS_MARKER_PAT =
     Seqs [RWordB, RGroup 1 (Alts [keywords_word, index_terms_word]), RWordB, Opt (RSym dash_class)]"

section \<open>The extractors\<close>

text \<open>\<open>clean_line\<close>: \<open>re.sub(r"\s+", " ", s).strip()\<close>.\<close>

definition clean_line :: "unidata \<Rightarrow> str \<Rightarrow> str" where
  "clean_line U s = strip (re_sub U False (Many1 sp) (ustr '' '') s)"

text \<open>
  The inner \<open>while\<close> loop of \<open>find_abstract\<close> and of \<open>find_keywords\<close>, over the lines
  after the matched one: it appends the cleaned lines until a line is blank or matches
  \<open>NEXT_SECTION_PAT\<close>, or the lines run out.
\<close>

fun accumulate :: "unidata \<Rightarrow> str list \<Rightarrow> str list" where
  "accumulate U [] = []"
| "accumulate U (nxt # ls) =
     (if strip nxt = [] \<or> re_match U True NEXT_SECTION_PAT nxt \<noteq> None then []
      else clean_line U nxt # accumulate U ls)"

text \<open>
  The \<open>for\<close> loop of \<open>find_abstract\<close>; the result is \<open>abstract_lines\<close>. The inline pattern
  is tried first on every line, the header pattern second.
\<close>

fun scan_abstract :: "unidata \<Rightarrow> str list \<Rightarrow> str list" where
  "scan_abstract U [] = []"
| "scan_abstract U (line # ls) =
     (case re_match U True ABSTRACT_INLINE_PAT line of
        Some m \<Rightarrow> clean_line U (group m 1) # accumulate U ls
      | None \<Rightarrow>
          if re_match U True ABSTRACT_HEAD_PAT line \<noteq> None then accumulate U ls
          else scan_abstract U ls)"

definition find_abstract :: "unidata \<Rightarrow> str \<Rightarrow> str" where
  "find_abstract U text =
     (let lines = splitlines text;
          abstract_lines = scan_abstract U lines;
          abstract = strip (join (ustr '' '') abstract_lines);
          abstract = strip (hd (re_split U True KEYWORDS_MARKER_PAT 1 abstract))
      in abstract)"

text \<open>The \<open>for\<close> loop of \<open>find_keywords\<close>, which returns at the first matching line.\<close>

fun scan_keywords :: "unidata \<Rightarrow> str list \<Rightarrow> str" where
  "scan_keywords U [] = []"
| "scan_keywords U (line # ls) =
     (case re_match U True KEYWORDS_PAT line of
        Some m \<Rightarrow>
          (let collected = clean_line U (group m 2) # accumulate U ls;
               kws = strip_chars (ustr '';'') (strip (join (ustr '' '') collected));
               parts = map (strip_chars (ustr '' .;''))
                         (filter (\<lambda>p. strip_chars (ustr '' .;'') p \<noteq> [])
                            (re_split U False (RSym [CChar (of_char CHR '';''), CChar (of_char CHR '','')]) 0 kws))
           in join (ustr '', '') parts)
      | None \<Rightarrow> scan_keywords U ls)"

definition find_keywords :: "unidata \<Rightarrow> str \<Rightarrow> str" where
  "find_keywords U text = scan_keywords U (splitlines text)"

text \<open>
  \<open>find_authors\<close>. \<open>keep_line\<close> is the body of the first loop for a cleaned line \<open>s\<close>:
  the line is kept unless one of the four \<open>continue\<close> branches is taken.
\<close>

definition keep_line :: "unidata \<Rightarrow> str \<Rightarrow> bool" where
  "keep_line U s \<longleftrightarrow>
     s \<noteq> []
     \<and> \<not> (re_search U True EMAIL_PAT s \<noteq> None \<or> contains (ustr ''http'') (str_lower U s)
            \<or> contains (ustr ''doi'') (str_lower U s))
     \<and> \<not> (length s > 6 \<and> str_upper U s = s)
     \<and> \<not> (re_search U True AFFILIATION_PAT s \<noteq> None)"

definition filtered_lines :: "unidata \<Rightarrow> str \<Rightarrow> str list" where
  "filtered_lines U text = filter (keep_line U) (map (clean_line U) (take 40 (splitlines text)))"

text \<open>The loop that fills \<open>ordered\<close>, with the set \<open>seen\<close>.\<close>

fun ordered_names :: "str set \<Rightarrow> str list \<Rightarrow> str list" where
  "ordered_names seen [] = []"
| "ordered_names seen (n # ns) =
     (let nn = strip n
      in if nn \<notin> seen then nn # ordered_names (insert nn seen) ns
         else ordered_names seen ns)"

text \<open>The second loop, over \<open>filtered[:8]\<close>.\<close>

fun scan_authors :: "unidata \<Rightarrow> str list \<Rightarrow> str" where
  "scan_authors U [] = []"
| "scan_authors U (ln # lns) =
     (let names = re_findall U False NAME_PAT ln
      in if length names \<ge> 2
            \<or> (length names = 1
                \<and> (contains (ustr '','') ln \<or> contains (ustr '' and '') (str_lower U ln)))
         then (let ordered = ordered_names {} names
               in if ordered \<noteq> [] then join (ustr '', '') ordered else scan_authors U lns)
         else scan_authors U lns)"

definition find_authors :: "unidata \<Rightarrow> str \<Rightarrow> str" where
  "find_authors U text = scan_authors U (take 8 (filtered_lines U text))"

section \<open>The record assembler\<close>

text \<open>
  The two libraries that read a container are parameters. \<open>pdf_pages file\<close> is what
  \<open>pdfplumber.open(file).pages\<close> gives, each page with the result of its
  \<open>extract_text()\<close> (\<open>None\<close> for a page without text); \<open>docx_paragraphs file\<close> is the text of
  the paragraphs of \<open>docx.Document(file)\<close>. Either is \<open>None\<close> when the library raises,
  which the \<open>except\<close> clause turns into the empty text.
\<close>

record 'f readers =
  pdf_pages :: "'f \<Rightarrow> str option list option"
  docx_paragraphs :: "'f \<Rightarrow> str list option"

definition extract_text_from_pdf :: "'f readers \<Rightarrow> 'f \<Rightarrow> str" where
  "extract_text_from_pdf rd file =
     (case pdf_pages rd file of
        None \<Rightarrow> []
      | Some pages \<Rightarrow> join [10] (map (\<lambda>t. case t of None \<Rightarrow> [] | Some x \<Rightarrow> x) pages))"

definition extract_text_from_docx :: "'f readers \<Rightarrow> 'f \<Rightarrow> str" where
  "extract_text_from_docx rd file =
     (case docx_paragraphs rd file of None \<Rightarrow> [] | Some ps \<Rightarrow> join [10] ps)"

text \<open>
  The dictionary that \<open>parse_file\<close> returns has five fixed keys; the keys \<open>keywords\<close>
  and \<open>notes\<close> are the fields \<open>keywords'\<close> and \<open>notes'\<close>.
\<close>

record extraction =
  filename :: str
  authors :: str
  abstract :: str
  keywords' :: str
  notes' :: str

text \<open>
  \<open>parse_file\<close> is modelled together with the sequence of the helper functions it calls, in
  the order of the calls, so that a claim that a helper is not called can be stated.
\<close>

datatype call =
    Call_extract_text_from_pdf
  | Call_extract_text_from_docx
  | Call_find_authors
  | Call_find_abstract
  | Call_find_keywords

text \<open>The extractors and the note, for a text that has been read.\<close>

definition assemble :: "unidata \<Rightarrow> str \<Rightarrow> str \<Rightarrow> str \<Rightarrow> extraction" where
  "assemble U fname ext text =
     (let authors = find_authors U text;
          abstract = find_abstract U text;
          keywords' = find_keywords U text;
          notes' = (if ext = ustr ''pdf'' \<and> length (re_sub U False (Many1 sp) [] text) < 200
                   then ustr ''Possible scanned/non-searchable PDF.'' else [])
      in \<lparr>filename = fname, authors = authors, abstract = abstract, keywords' = keywords',
          notes' = notes'\<rparr>)"

text \<open>The variable \<open>ext\<close>: \<open>filename.split(".")[-1].lower()\<close>.\<close>

definition file_ext :: "unidata \<Rightarrow> str \<Rightarrow> str" where
  "file_ext U fname = str_lower U (last (py_split (ustr ''.'') fname))"

definition parse_file_calls :: "unidata \<Rightarrow> 'f readers \<Rightarrow> 'f \<Rightarrow> str \<Rightarrow> extraction \<times> call list" where
  "parse_file_calls U rd file fname =
     (let ext = file_ext U fname
      in if ext = ustr ''pdf''
         then (assemble U fname ext (extract_text_from_pdf rd file),
               [Call_extract_text_from_pdf, Call_find_authors, Call_find_abstract,
                Call_find_keywords])
         else if ext = ustr ''docx''
         then (assemble U fname ext (extract_text_from_docx rd file),
               [Call_extract_text_from_docx, Call_find_authors, Call_find_abstract,
                Call_find_keywords])
         else (\<lparr>filename = fname, authors = [], abstract = [], keywords' = [],
                notes' = ustr ''Unsupported file type''\<rparr>, []))"

definition parse_file :: "unidata \<Rightarrow> 'f readers \<Rightarrow> 'f \<Rightarrow> str \<Rightarrow> extraction" where
  "parse_file U rd file fname = fst (parse_file_calls U rd file fname)"

section \<open>Notions used in the proofs\<close>

text \<open>
  \<open>reads P st m\<close>: the state \<open>m\<close> is reached from \<open>st\<close> by reading a piece of text whose
  characters all satisfy \<open>P\<close>.
\<close>

definition reads :: "(nat \<Rightarrow> bool) \<Rightarrow> mstate \<Rightarrow> mstate \<Rightarrow> bool" where
  "reads P st m \<longleftrightarrow>
     (\<exists>u. rest st = u @ rest m \<and> list_all P u
          \<and> prev m = (if u = [] then prev st else Some (last u)))"

fun reads_only :: "unidata \<Rightarrow> bool \<Rightarrow> (nat \<Rightarrow> bool) \<Rightarrow> regex \<Rightarrow> bool" where
  "reads_only U ic P (RSym items) = (\<forall>c. in_class U ic items c \<longrightarrow> P c)"
| "reads_only U ic P RDot = (\<forall>c. c \<noteq> 10 \<longrightarrow> P c)"
| "reads_only U ic P (RSeq a b) = (reads_only U ic P a \<and> reads_only U ic P b)"
| "reads_only U ic P (RAlt a b) = (reads_only U ic P a \<and> reads_only U ic P b)"
| "reads_only U ic P (RStar a) = reads_only U ic P a"
| "reads_only U ic P (RGroup n a) = reads_only U ic P a"
| "reads_only U ic P r = True"

fun no_groups :: "regex \<Rightarrow> bool" where
  "no_groups (RSeq a b) = (no_groups a \<and> no_groups b)"
| "no_groups (RAlt a b) = (no_groups a \<and> no_groups b)"
| "no_groups (RStar a) = no_groups a"
| "no_groups (RGroup n a) = False"
| "no_groups r = True"

definition ws_prev :: "nat option \<Rightarrow> str \<Rightarrow> nat option" where
  "ws_prev p s = (if takeWhile is_space s = [] then p else Some (last (takeWhile is_space s)))"

text \<open>A reader whose libraries raise on every file: each text is empty.\<close>

definition failing_readers :: "unit readers" where
  "failing_readers = \<lparr>pdf_pages = (\<lambda>_. None), docx_paragraphs = (\<lambda>_. None)\<rparr>"

text \<open>A reader with a PDF of two pages, one of them without text, and a document of one paragraph.\<close>

definition short_pdf :: "unit readers" where
  "short_pdf = \<lparr>pdf_pages = (\<lambda>_. Some [Some (ustr ''Scan 1''), None]),
                docx_paragraphs = (\<lambda>_. Some [ustr ''A paragraph'']) \<rparr>"

text \<open>
  The acceptance rule of claim C2 as amended: the name pattern gives at least two matches
  on the line, a repeated name counting each time, or exactly one match on a line with a
  comma or with \<open>and\<close> between two spaces.
\<close>

definition accepted_line :: "unidata \<Rightarrow> str \<Rightarrow> bool" where
  "accepted_line U ln \<longleftrightarrow>
     2 \<le> length (re_findall U False NAME_PAT ln)
     \<or> (length (re_findall U False NAME_PAT ln) = 1
         \<and> (contains (ustr '','') ln \<or> contains (ustr '' and '') (str_lower U ln)))"

text \<open>The position of the first occurrence of \<open>x\<close> in \<open>xs\<close>.\<close>

definition first_index :: "'a list \<Rightarrow> 'a \<Rightarrow> nat" where
  "first_index xs x = length (takeWhile (\<lambda>y. y \<noteq> x) xs)"

text \<open>
  The pieces of a string between its separator characters, as the spec has the splitting:
  a separator ends the piece before it and begins the next one.
\<close>

fun split_at :: "(nat \<Rightarrow> bool) \<Rightarrow> str \<Rightarrow> str list" where
  "split_at P [] = [[]]"
| "split_at P (c # cs) =
     (if P c then [] # split_at P cs
      else (c # hd (split_at P cs)) # tl (split_at P cs))"

definition is_list_sep :: "nat \<Rightarrow> bool" where
  "is_list_sep c \<longleftrightarrow> c = of_char CHR '';'' \<or> c = of_char CHR '',''"

definition keyword_terms :: "str \<Rightarrow> str list" where
  "keyword_terms kws =
     filter (\<lambda>t. t \<noteq> []) (map (strip_chars (ustr '' .;'')) (split_at is_list_sep kws))"

text \<open>
  A text with a line before the header, an empty candidate, a candidate with spaces around
  it, a continuation line, a last semicolon, and a section after a blank line.
\<close>

definition keywords_sample :: str where
  "keywords_sample =
     join [10] [ustr ''A Title'', ustr ''Keywords: machine learning;; graphs ,'',
                ustr ''optimization.;'', [], ustr ''1 Introduction'']"

section \<open>Lemmas on the text functions and on the matcher\<close>

subsection \<open>Splitting at a separator\<close>

lemma split_from_not_Nil: "split_from sep cur s \<noteq> []"
  by (induction sep cur s rule: split_from.induct) auto

lemma split_from_no_sep: "d \<notin> set s \<Longrightarrow> split_from [d] cur s = [cur @ s]"
  by (induction s arbitrary: cur) auto

lemma last_split_from:
  "d \<notin> set suf \<Longrightarrow> last (split_from [d] cur (pre @ d # suf)) = suf"
proof (induction pre arbitrary: cur)
  case Nil
  then show ?case by (simp add: split_from_no_sep split_from_not_Nil)
next
  case (Cons c pre)
  then show ?case by (simp add: split_from_not_Nil)
qed

lemma ustr_dot: "ustr ''.'' = [46]"
  by (simp add: ustr_def)

lemma file_ext_no_dot: "46 \<notin> set fname \<Longrightarrow> file_ext U fname = str_lower U fname"
  by (simp add: file_ext_def py_split_def ustr_dot split_from_no_sep)

lemma file_ext_last_dot:
  "46 \<notin> set suf \<Longrightarrow> file_ext U (pre @ 46 # suf) = str_lower U suf"
  by (simp add: file_ext_def py_split_def ustr_dot last_split_from)

subsection \<open>What a match reads\<close>

lemma reads_refl: "reads P st st"
  by (simp add: reads_def)

lemma reads_trans: "reads P a b \<Longrightarrow> reads P b c \<Longrightarrow> reads P a c"
  unfolding reads_def
  apply (elim exE conjE)
  apply (rule_tac x="u @ ua" in exI)
  apply auto
  done

lemma reads_step: "rest st = c # cs \<Longrightarrow> P c \<Longrightarrow> reads P st (st\<lparr>prev := Some c, rest := cs\<rparr>)"
  unfolding reads_def by (rule exI[of _ "[c]"]) simp

lemma reads_caps: "reads P st m \<Longrightarrow> reads P st (m\<lparr>caps := x\<rparr>)"
  by (simp add: reads_def)

lemma reads_length: "reads P st m \<Longrightarrow> length (rest m) \<le> length (rest st)"
  by (auto simp: reads_def)

lemma rmatch_star_unfold:
  "m \<in> set (rmatch U ic (RStar a) st) \<Longrightarrow>
     m = st \<or> (\<exists>m1 \<in> set (rmatch U ic a st). length (rest m1) < length (rest st)
                  \<and> m \<in> set (rmatch U ic (RStar a) m1))"
  by (subst (asm) rmatch_star) (auto split: if_splits)

lemma rmatch_reads:
  "m \<in> set (rmatch U ic r st) \<Longrightarrow> reads_only U ic P r \<Longrightarrow> reads P st m"
proof (induction U ic r st arbitrary: m rule: rmatch.induct)
  case (1 U ic st) then show ?case by (simp add: reads_refl)
next
  case (2 U ic items st) then show ?case
    by (cases "rest st") (auto simp: reads_step split: if_splits)
next
  case (3 U ic st) then show ?case
    by (cases "rest st") (auto simp: reads_step split: if_splits)
next
  case (4 U ic st) then show ?case by (simp add: reads_refl split: if_splits)
next
  case (5 U ic st) then show ?case by (simp add: reads_refl split: if_splits)
next
  case (6 U ic st) then show ?case by (simp add: reads_refl split: if_splits)
next
  case (7 U ic a b st)
  from "7.prems" obtain m1 where m1: "m1 \<in> set (rmatch U ic a st)" and m: "m \<in> set (rmatch U ic b m1)"
    by auto
  from "7.prems" have ro: "reads_only U ic P a" "reads_only U ic P b" by simp_all
  show ?case using "7.IH"(1)[OF m1 ro(1)] "7.IH"(2)[OF m1 m ro(2)] by (rule reads_trans)
next
  case (8 U ic a b st)
  then show ?case by auto
next
  case (9 U ic a st)
  from "9.prems" have ro: "reads_only U ic P a" by simp
  from rmatch_star_unfold[OF "9.prems"(1)] show ?case
  proof
    assume "m = st"
    then show ?thesis by (simp add: reads_refl)
  next
    assume "\<exists>m1 \<in> set (rmatch U ic a st). length (rest m1) < length (rest st)
                  \<and> m \<in> set (rmatch U ic (RStar a) m1)"
    then obtain m1 where m1: "m1 \<in> set (rmatch U ic a st)"
      and lt: "length (rest m1) < length (rest st)" and m: "m \<in> set (rmatch U ic (RStar a) m1)"
      by blast
    show ?thesis using "9.IH"(1)[OF m1 ro] "9.IH"(2)[OF m1 lt m "9.prems"(2)] by (rule reads_trans)
  qed
next
  case (10 U ic n a st)
  from "10.prems" obtain m1 where m1: "m1 \<in> set (rmatch U ic a st)"
    and m: "m = m1\<lparr>caps := (n, take (length (rest st) - length (rest m1)) (rest st)) # caps m1\<rparr>"
    by auto
  from "10.prems" have ro: "reads_only U ic P a" by simp
  from "10.IH"[OF m1 ro] show ?case unfolding m by (rule reads_caps)
qed

lemma reads_only_True: "reads_only U ic (\<lambda>_. True) r"
  by (induction r) auto

lemma rmatch_reads_any: "m \<in> set (rmatch U ic r st) \<Longrightarrow> reads (\<lambda>_. True) st m"
  by (rule rmatch_reads[OF _ reads_only_True])

lemma rmatch_length: "m \<in> set (rmatch U ic r st) \<Longrightarrow> length (rest m) \<le> length (rest st)"
  by (rule reads_length[OF rmatch_reads_any])

text \<open>A pattern without groups leaves the captured groups as they are.\<close>

lemma rmatch_no_groups:
  "m \<in> set (rmatch U ic r st) \<Longrightarrow> no_groups r \<Longrightarrow> caps m = caps st"
proof (induction U ic r st arbitrary: m rule: rmatch.induct)
  case (2 U ic items st) then show ?case
    by (cases "rest st") (auto split: if_splits)
next
  case (3 U ic st) then show ?case
    by (cases "rest st") (auto split: if_splits)
next
  case (7 U ic a b st)
  from "7.prems" obtain m1 where m1: "m1 \<in> set (rmatch U ic a st)" and m: "m \<in> set (rmatch U ic b m1)"
    by auto
  from "7.prems" have ng: "no_groups a" "no_groups b" by simp_all
  show ?case using "7.IH"(1)[OF m1 ng(1)] "7.IH"(2)[OF m1 m ng(2)] by simp
next
  case (9 U ic a st)
  from "9.prems" have ng: "no_groups a" by simp
  from rmatch_star_unfold[OF "9.prems"(1)] show ?case
  proof
    assume "m = st"
    then show ?thesis by simp
  next
    assume "\<exists>m1 \<in> set (rmatch U ic a st). length (rest m1) < length (rest st)
                  \<and> m \<in> set (rmatch U ic (RStar a) m1)"
    then obtain m1 where m1: "m1 \<in> set (rmatch U ic a st)"
      and lt: "length (rest m1) < length (rest st)" and m: "m \<in> set (rmatch U ic (RStar a) m1)"
      by blast
    show ?thesis using "9.IH"(1)[OF m1 ng] "9.IH"(2)[OF m1 lt m "9.prems"(2)] by simp
  qed
qed (auto split: if_splits)

text \<open>A group captures what its pattern reads.\<close>

lemma rmatch_group:
  assumes "m \<in> set (rmatch U ic (RGroup n a) st)"
  shows "\<exists>m1 u. m1 \<in> set (rmatch U ic a st) \<and> rest st = u @ rest m1
            \<and> m = m1\<lparr>caps := (n, u) # caps m1\<rparr>"
proof -
  from assms obtain m1 where m1: "m1 \<in> set (rmatch U ic a st)"
    and m: "m = m1\<lparr>caps := (n, take (length (rest st) - length (rest m1)) (rest st)) # caps m1\<rparr>"
    by auto
  from rmatch_reads_any[OF m1] obtain u where u: "rest st = u @ rest m1"
    by (auto simp: reads_def)
  then have "take (length (rest st) - length (rest m1)) (rest st) = u" by simp
  with m1 u m show ?thesis by auto
qed

lemma rmatch_caps_only:
  "m \<in> set (rmatch U ic r st) \<Longrightarrow> reads_only U ic P r \<Longrightarrow>
     \<forall>(n, g) \<in> set (caps m). (n, g) \<in> set (caps st) \<or> list_all P g"
proof (induction U ic r st arbitrary: m rule: rmatch.induct)
  case (2 U ic items st) then show ?case
    by (cases "rest st") (auto split: if_splits)
next
  case (3 U ic st) then show ?case
    by (cases "rest st") (auto split: if_splits)
next
  case (7 U ic a b st)
  from "7.prems" obtain m1 where m1: "m1 \<in> set (rmatch U ic a st)" and m: "m \<in> set (rmatch U ic b m1)"
    by auto
  from "7.prems" have ro: "reads_only U ic P a" "reads_only U ic P b" by simp_all
  show ?case using "7.IH"(1)[OF m1 ro(1)] "7.IH"(2)[OF m1 m ro(2)] by fastforce
next
  case (9 U ic a st)
  from "9.prems" have ro: "reads_only U ic P a" by simp
  from rmatch_star_unfold[OF "9.prems"(1)] show ?case
  proof
    assume "m = st"
    then show ?thesis by auto
  next
    assume "\<exists>m1 \<in> set (rmatch U ic a st). length (rest m1) < length (rest st)
                  \<and> m \<in> set (rmatch U ic (RStar a) m1)"
    then obtain m1 where m1: "m1 \<in> set (rmatch U ic a st)"
      and lt: "length (rest m1) < length (rest st)" and m: "m \<in> set (rmatch U ic (RStar a) m1)"
      by blast
    show ?thesis using "9.IH"(1)[OF m1 ro] "9.IH"(2)[OF m1 lt m "9.prems"(2)] by fastforce
  qed
next
  case (10 U ic n a st)
  from rmatch_group[OF "10.prems"(1)] obtain m1 u where m1: "m1 \<in> set (rmatch U ic a st)"
    and u: "rest st = u @ rest m1" and m: "m = m1\<lparr>caps := (n, u) # caps m1\<rparr>" by blast
  from "10.prems" have ro: "reads_only U ic P a" by simp
  from rmatch_reads[OF m1 ro] u have "list_all P u" by (auto simp: reads_def)
  with "10.IH"[OF m1 ro] m show ?case by auto
next
  case (8 U ic a b st)
  from "8.prems" have ro: "reads_only U ic P a" "reads_only U ic P b" by simp_all
  from "8.prems" have "m \<in> set (rmatch U ic a st) \<or> m \<in> set (rmatch U ic b st)" by simp
  then show ?case
  proof
    assume "m \<in> set (rmatch U ic a st)"
    from "8.IH"(1)[OF this ro(1)] show ?thesis .
  next
    assume "m \<in> set (rmatch U ic b st)"
    from "8.IH"(2)[OF this ro(2)] show ?thesis .
  qed
qed (auto split: if_splits)

subsection \<open>Runs of white space\<close>

lemma in_class_space: "in_class U ic [CSpace] c = is_space c"
  by (simp add: in_class_def)

lemma rmatch_sp:
  "rmatch U ic sp \<lparr>prev = p, rest = s, caps = g\<rparr> =
     (case s of [] \<Rightarrow> []
      | c # cs \<Rightarrow> if is_space c then [\<lparr>prev = Some c, rest = cs, caps = g\<rparr>] else [])"
  by (simp add: sp_def in_class_space split: list.splits)

lemma ws_prev_Cons: "is_space c \<Longrightarrow> ws_prev p (c # cs) = ws_prev (Some c) cs"
  by (simp add: ws_prev_def)

lemma rmatch_star_sp_hd:
  "\<exists>ms. rmatch U ic (RStar sp) \<lparr>prev = p, rest = s, caps = g\<rparr> =
          \<lparr>prev = ws_prev p s, rest = dropWhile is_space s, caps = g\<rparr> # ms"
proof (induction s arbitrary: p)
  case Nil
  show ?case by (subst rmatch_star) (simp add: rmatch_sp ws_prev_def)
next
  case (Cons c cs)
  show ?case
  proof (cases "is_space c")
    case True
    from Cons[of "Some c"] obtain ms where
      "rmatch U ic (RStar sp) \<lparr>prev = Some c, rest = cs, caps = g\<rparr> =
         \<lparr>prev = ws_prev (Some c) cs, rest = dropWhile is_space cs, caps = g\<rparr> # ms" by blast
    with True show ?thesis
      by (subst rmatch_star) (simp add: rmatch_sp ws_prev_Cons)
  next
    case False
    then show ?thesis by (subst rmatch_star) (simp add: rmatch_sp ws_prev_def)
  qed
qed

lemma first_match_many1_sp:
  "first_match U ic (Many1 sp) \<lparr>prev = p, rest = c # cs, caps = g\<rparr> =
     (if is_space c
      then Some \<lparr>prev = ws_prev (Some c) cs, rest = dropWhile is_space cs, caps = g\<rparr>
      else None)"
proof -
  obtain ms where "rmatch U ic (RStar sp) \<lparr>prev = Some c, rest = cs, caps = g\<rparr> =
      \<lparr>prev = ws_prev (Some c) cs, rest = dropWhile is_space cs, caps = g\<rparr> # ms"
    using rmatch_star_sp_hd by blast
  then show ?thesis by (simp add: first_match_def Many1_def rmatch_sp)
qed

lemma re_sub_ws_Cons:
  "re_sub_from U ic (Many1 sp) repl p (c # cs) =
     (if is_space c
      then repl @ re_sub_from U ic (Many1 sp) repl (ws_prev (Some c) cs) (dropWhile is_space cs)
      else c # re_sub_from U ic (Many1 sp) repl (Some c) cs)"
  by (simp add: first_match_many1_sp less_Suc_eq_le length_dropWhile_le)

lemma filter_dropWhile_not: "filter (\<lambda>c. \<not> P c) (dropWhile P xs) = filter (\<lambda>c. \<not> P c) xs"
  by (induction xs) auto

lemma re_sub_ws_delete:
  "re_sub_from U ic (Many1 sp) [] p s = filter (\<lambda>c. \<not> is_space c) s"
proof (induction s arbitrary: p rule: length_induct)
  case (1 s)
  show ?case
  proof (cases s)
    case Nil
    then show ?thesis by simp
  next
    case (Cons c cs)
    have le: "length (dropWhile is_space cs) < length s"
      using Cons by (simp add: less_Suc_eq_le length_dropWhile_le)
    show ?thesis
    proof (cases "is_space c")
      case True
      with Cons le "1.IH" show ?thesis
        by (simp add: re_sub_ws_Cons filter_dropWhile_not del: re_sub_from.simps)
    next
      case False
      with Cons "1.IH" show ?thesis
        by (simp add: re_sub_ws_Cons del: re_sub_from.simps)
    qed
  qed
qed

lemma re_sub_ws_delete': "re_sub U ic (Many1 sp) [] s = filter (\<lambda>c. \<not> is_space c) s"
  by (simp add: re_sub_def re_sub_ws_delete)

subsection \<open>Lines\<close>

lemma splitlines_from_append:
  "T \<noteq> [] \<Longrightarrow> is_linebreak (last T) \<Longrightarrow>
     \<exists>later. splitlines_from cur (T @ S) = splitlines_from cur T @ later"
proof (induction cur T rule: splitlines_from.induct)
  case (1 cur)
  then show ?case by simp
next
  case (2 cur c)
  then show ?case by (cases S) auto
next
  case (3 cur c d ds)
  then show ?case by (cases ds; cases "is_linebreak c") auto
qed

lemma splitlines_append:
  "T \<noteq> [] \<Longrightarrow> is_linebreak (last T) \<Longrightarrow> \<exists>later. splitlines (T @ S) = splitlines T @ later"
  unfolding splitlines_def by (rule splitlines_from_append)

section \<open>Evaluation\<close>

text \<open>The equations that compute the functions on a given text, with the ASCII tables.\<close>

lemmas text_eval = ustr_def is_space_def is_linebreak_def is_word_def lower_def upper_def
  ascii_tables_def strip_def strip_chars_def splitlines_def py_split_def

lemmas re_eval = in_class_def word_opt_def next_cp_def rmatch_star Many1_def Opt_def Lit_def
  Seqs_def Alts_def first_match_def group_def re_match_def re_search_def re_findall_def
  re_sub_def re_split_def sp_def dash_class_def keywords_word_def index_terms_word_def

lemmas pat_eval = ABSTRACT_HEAD_PAT_def ABSTRACT_INLINE_PAT_def KEYWORDS_PAT_def
  NEXT_SECTION_PAT_def EMAIL_PAT_def NAME_PAT_def AFFILIATION_PAT_def KEYWORDS_MARKER_PAT_def
  upper_letter_def lower_letter_def

lemmas prog_eval = clean_line_def find_abstract_def find_keywords_def find_authors_def
  keep_line_def filtered_lines_def Let_def

section \<open>The accumulation scan: claims C4 and C1\<close>

text \<open>A line ends the accumulation when it is blank or matches \<open>NEXT_SECTION_PAT\<close>.\<close>

definition ends_accumulation :: "unidata \<Rightarrow> str \<Rightarrow> bool" where
  "ends_accumulation U b \<longleftrightarrow> strip b = [] \<or> re_match U True NEXT_SECTION_PAT b \<noteq> None"

lemma accumulate_boundary:
  "ends_accumulation U b \<Longrightarrow> accumulate U (ls @ b # later) = accumulate U ls"
  by (induction ls) (auto simp: ends_accumulation_def)

lemma scan_abstract_boundary:
  "\<exists>l \<in> set ls. re_match U True ABSTRACT_INLINE_PAT l \<noteq> None
                 \<or> re_match U True ABSTRACT_HEAD_PAT l \<noteq> None \<Longrightarrow>
   ends_accumulation U b \<Longrightarrow> scan_abstract U (ls @ b # later) = scan_abstract U ls"
proof (induction ls)
  case Nil
  then show ?case by simp
next
  case (Cons l ls)
  show ?case
  proof (cases "re_match U True ABSTRACT_INLINE_PAT l")
    case (Some m)
    then show ?thesis using Cons.prems(2) by (simp add: accumulate_boundary)
  next
    case None
    show ?thesis
    proof (cases "re_match U True ABSTRACT_HEAD_PAT l = None")
      case True
      with None Cons.prems have "\<exists>l \<in> set ls. re_match U True ABSTRACT_INLINE_PAT l \<noteq> None
                 \<or> re_match U True ABSTRACT_HEAD_PAT l \<noteq> None" by auto
      from Cons.IH[OF this Cons.prems(2)] None True show ?thesis by simp
    next
      case False
      with None show ?thesis using Cons.prems(2) by (simp add: accumulate_boundary)
    qed
  qed
qed

text \<open>
  Claim C4. Let the lines of \<open>T\<close> be \<open>ls\<close> followed by a line \<open>b\<close> that is blank, or
  that the program recognises as the start of the next section, and that is terminated;
  and let a line of \<open>ls\<close> match the inline or the header pattern of the abstract. Then for
  every further text \<open>S\<close>, \<open>find_abstract\<close> gives on \<open>T\<close> with \<open>S\<close> appended what it
  gives on \<open>T\<close>: the accumulation never goes past the blank line or the next-section
  marker. This holds whatever the Unicode tables are.
\<close>

theorem C4_no_spill_past_boundary:
  assumes "splitlines T = ls @ [b]"
    and "strip b = [] \<or> re_match U True NEXT_SECTION_PAT b \<noteq> None"
    and "is_linebreak (last T)"
    and "\<exists>l \<in> set ls. re_match U True ABSTRACT_INLINE_PAT l \<noteq> None
                     \<or> re_match U True ABSTRACT_HEAD_PAT l \<noteq> None"
  shows "find_abstract U (T @ S) = find_abstract U T"
proof -
  from assms(2) have e: "ends_accumulation U b" by (simp add: ends_accumulation_def)
  from assms(1) have "T \<noteq> []" by (auto simp: splitlines_def)
  from splitlines_append[OF this assms(3)] obtain later
    where "splitlines (T @ S) = splitlines T @ later" by blast
  with assms(1) have "splitlines (T @ S) = ls @ b # later" by simp
  with scan_abstract_boundary[OF assms(4) e, of later] scan_abstract_boundary[OF assms(4) e, of "[]"]
  show ?thesis
    by (simp add: find_abstract_def assms(1))
qed

text \<open>
  Scenario A, followed by a section of the paper; and the same abstract followed at once
  by the keywords.
\<close>

lemma scenario_A_lines:
  "splitlines (ustr ''Abstract: We present X.'' @ [10, 10]) = [ustr ''Abstract: We present X.''] @ [[]]"
  by (simp add: text_eval)

lemma scenario_A_inline:
  "re_match ascii_tables True ABSTRACT_INLINE_PAT (ustr ''Abstract: We present X.'') \<noteq> None"
  by (simp add: text_eval re_eval pat_eval)

lemma scenario_A_abstract:
  "find_abstract ascii_tables (ustr ''Abstract: We present X.'' @ [10, 10]) = ustr ''We present X.''"
  by (simp add: text_eval re_eval pat_eval prog_eval)

lemma scenario_A_keywords_lines:
  "splitlines (ustr ''Abstract: We present X.'' @ [10] @ ustr ''Keywords: graphs'' @ [10]) =
     [ustr ''Abstract: We present X.''] @ [ustr ''Keywords: graphs'']"
  by (simp add: text_eval)

lemma scenario_A_keywords_boundary:
  "re_match ascii_tables True NEXT_SECTION_PAT (ustr ''Keywords: graphs'') \<noteq> None"
  by (simp add: text_eval re_eval pat_eval)

lemma scenario_A_keywords_abstract:
  "find_abstract ascii_tables (ustr ''Abstract: We present X.'' @ [10] @ ustr ''Keywords: graphs'' @ [10]) =
     ustr ''We present X.''"
  by (simp add: text_eval re_eval pat_eval prog_eval)

theorem C4_no_spill_past_boundary_witness:
  "splitlines (ustr ''Abstract: We present X.'' @ [10, 10]) = [ustr ''Abstract: We present X.'', []]
   \<and> find_abstract ascii_tables ((ustr ''Abstract: We present X.'' @ [10, 10])
                     @ (ustr ''1 Introduction'' @ [10] @ ustr ''Body text'')) =
       ustr ''We present X.''
   \<and> find_abstract ascii_tables
         ((ustr ''Abstract: We present X.'' @ [10] @ ustr ''Keywords: graphs'' @ [10])
          @ ustr ''More text'') =
       ustr ''We present X.''"
proof -
  have b: "strip [] = [] \<or> re_match ascii_tables True NEXT_SECTION_PAT [] \<noteq> None"
    by (simp add: strip_def)
  have l: "is_linebreak (last (ustr ''Abstract: We present X.'' @ [10, 10]))"
    by (simp add: is_linebreak_def)
  have m: "\<exists>l \<in> set [ustr ''Abstract: We present X.'']. re_match ascii_tables True ABSTRACT_INLINE_PAT l \<noteq> None
                     \<or> re_match ascii_tables True ABSTRACT_HEAD_PAT l \<noteq> None"
    using scenario_A_inline by simp
  have k: "strip (ustr ''Keywords: graphs'') = []
           \<or> re_match ascii_tables True NEXT_SECTION_PAT (ustr ''Keywords: graphs'') \<noteq> None"
    using scenario_A_keywords_boundary by simp
  have l': "is_linebreak (last (ustr ''Abstract: We present X.'' @ [10] @ ustr ''Keywords: graphs'' @ [10]))"
    by (simp add: is_linebreak_def)
  note e1 = C4_no_spill_past_boundary[OF scenario_A_lines b l m,
      of "ustr ''1 Introduction'' @ [10] @ ustr ''Body text''"]
  note e2 = C4_no_spill_past_boundary[OF scenario_A_keywords_lines k l' m, of "ustr ''More text''"]
  show ?thesis
    unfolding e1 e2 scenario_A_abstract scenario_A_keywords_abstract
    using scenario_A_lines by simp
qed

text \<open>
  Claim C1 says that a line beginning with \<open>1.\<close>, such as \<open>1. Introduction\<close>, ends the
  accumulation. The pattern asks for a word boundary after \<open>1.\<close>, which the space after
  the dot does not give: the line is not a boundary, and \<open>find_abstract\<close> and
  \<open>find_keywords\<close> read on through the heading and the text after it.
\<close>

theorem C1_numbered_heading_not_a_boundary:
  "re_match ascii_tables True NEXT_SECTION_PAT (ustr ''1. Introduction'') = None
   \<and> find_abstract ascii_tables (join [10] [ustr ''Abstract'', ustr ''We present X.'', ustr ''1. Introduction'',
                                ustr ''Body text'']) =
       ustr ''We present X. 1. Introduction Body text''
   \<and> find_keywords ascii_tables (join [10] [ustr ''Keywords: graphs'', ustr ''1. Introduction'']) =
       ustr ''graphs 1. Introduction''"
  by (simp add: text_eval re_eval pat_eval prog_eval)

section \<open>The keyword list: claim C7\<close>

subsection \<open>Splitting at semicolons and commas\<close>

lemma split_at_not_Nil: "split_at P s \<noteq> []"
  by (induction s) auto

lemma first_match_list_sep:
  "first_match U False (RSym [CChar 59, CChar 44])
     \<lparr>prev = p, rest = c # cs, caps = []\<rparr> =
   (if is_list_sep c then Some \<lparr>prev = Some c, rest = cs, caps = []\<rparr> else None)"
  by (simp add: first_match_def in_class_def is_list_sep_def)

lemma list_sep_chars: "(of_char CHR '';'' :: nat) = 59" "(of_char CHR '','' :: nat) = 44"
  by simp_all

lemma re_split_from_list_sep:
  "re_split_from U False (RSym [CChar 59, CChar 44]) 0 p cur s =
     (cur @ hd (split_at is_list_sep s)) # tl (split_at is_list_sep s)"
proof (induction s arbitrary: p cur)
  case Nil
  show ?case by simp
next
  case (Cons c cs)
  show ?case
  proof (cases "is_list_sep c")
    case True
    then show ?thesis using Cons[of "Some c" "[]"]
      by (simp add: first_match_list_sep split_at_not_Nil)
  next
    case False
    then show ?thesis using Cons[of "Some c" "cur @ [c]"]
      by (simp add: first_match_list_sep)
  qed
qed

lemma re_split_list_sep:
  "re_split U False (RSym [CChar 59, CChar 44]) 0 s =
     split_at is_list_sep s"
  by (simp add: re_split_def re_split_from_list_sep split_at_not_Nil)

lemma map_filter_strip:
  "map f (filter (\<lambda>p. f p \<noteq> []) ps) = filter (\<lambda>t. t \<noteq> []) (map f ps)"
  by (induction ps) auto

subsection \<open>The terms that are kept\<close>

lemma split_at_no_sep: "p \<in> set (split_at P s) \<Longrightarrow> c \<in> set p \<Longrightarrow> \<not> P c"
proof (induction s arbitrary: p)
  case Nil
  then show ?case by simp
next
  case (Cons d ds)
  show ?case
  proof (cases "P d")
    case True
    with Cons show ?thesis by auto
  next
    case False
    from Cons.prems(1) False
    have "p = d # hd (split_at P ds) \<or> p \<in> set (tl (split_at P ds))" by simp
    then show ?thesis
    proof
      assume "p = d # hd (split_at P ds)"
      with Cons.prems(2) have "c = d \<or> c \<in> set (hd (split_at P ds))" by auto
      then show ?thesis
      proof
        assume "c = d" with False show ?thesis by simp
      next
        assume "c \<in> set (hd (split_at P ds))"
        moreover have "hd (split_at P ds) \<in> set (split_at P ds)"
          by (simp add: split_at_not_Nil)
        ultimately show ?thesis using Cons.IH by blast
      qed
    next
      assume "p \<in> set (tl (split_at P ds))"
      then have "p \<in> set (split_at P ds)" by (rule list.set_sel(2)[rotated]) (simp add: split_at_not_Nil)
      with Cons.IH Cons.prems(2) show ?thesis by blast
    qed
  qed
qed

lemma set_strip_chars: "set (strip_chars cs s) \<subseteq> set s"
proof -
  have "set (dropWhile (\<lambda>c. c \<in> set cs) (rev (dropWhile (\<lambda>c. c \<in> set cs) s)))
          \<subseteq> set (rev (dropWhile (\<lambda>c. c \<in> set cs) s))"
    by (meson set_dropWhileD subsetI)
  also have "\<dots> \<subseteq> set s" unfolding set_rev by (meson set_dropWhileD subsetI)
  finally show ?thesis by (simp add: strip_chars_def)
qed

lemma hd_strip_chars: "strip_chars cs s \<noteq> [] \<Longrightarrow> hd (strip_chars cs s) \<notin> set cs"
proof -
  let ?t = "dropWhile (\<lambda>c. c \<in> set cs) s"
  let ?u = "dropWhile (\<lambda>c. c \<in> set cs) (rev ?t)"
  assume ne: "strip_chars cs s \<noteq> []"
  then have u: "?u \<noteq> []" by (simp add: strip_chars_def)
  have t: "?t \<noteq> []"
  proof
    assume a: "?t = []"
    have "?u = []" unfolding a by simp
    with u show False by simp
  qed
  have "rev ?t = takeWhile (\<lambda>c. c \<in> set cs) (rev ?t) @ ?u" by simp
  then have "?t = rev ?u @ rev (takeWhile (\<lambda>c. c \<in> set cs) (rev ?t))"
    by (metis rev_append rev_rev_ident)
  with u have "hd (rev ?u) = hd ?t" by (metis hd_append2 rev_is_Nil_conv)
  moreover from t have "hd ?t \<notin> set cs" by (metis (mono_tags, lifting) hd_dropWhile)
  ultimately show ?thesis by (simp add: strip_chars_def)
qed

lemma last_strip_chars: "strip_chars cs s \<noteq> [] \<Longrightarrow> last (strip_chars cs s) \<notin> set cs"
proof -
  let ?t = "dropWhile (\<lambda>c. c \<in> set cs) s"
  let ?u = "dropWhile (\<lambda>c. c \<in> set cs) (rev ?t)"
  assume ne: "strip_chars cs s \<noteq> []"
  then have u: "?u \<noteq> []" by (simp add: strip_chars_def)
  then have "hd ?u \<notin> set cs" by (metis (mono_tags, lifting) hd_dropWhile)
  moreover from u have "last (rev ?u) = hd ?u" by (simp add: last_rev)
  ultimately show ?thesis by (simp add: strip_chars_def)
qed

lemma keyword_terms_clean:
  assumes "t \<in> set (keyword_terms kws)"
  shows "t \<noteq> [] \<and> of_char CHR '';'' \<notin> set t \<and> of_char CHR '','' \<notin> set t
         \<and> hd t \<notin> set (ustr '' .;'') \<and> last t \<notin> set (ustr '' .;'')"
proof -
  from assms obtain p where p: "p \<in> set (split_at is_list_sep kws)"
    and t: "t = strip_chars (ustr '' .;'') p" and ne: "t \<noteq> []"
    by (auto simp: keyword_terms_def)
  from split_at_no_sep[OF p] set_strip_chars[of "ustr '' .;''" p] t
  have "\<forall>c \<in> set t. \<not> is_list_sep c" by blast
  then have "of_char CHR '';'' \<notin> set t \<and> of_char CHR '','' \<notin> set t"
    by (auto simp: is_list_sep_def)
  with ne t hd_strip_chars[of "ustr '' .;''" p] last_strip_chars[of "ustr '' .;''" p]
  show ?thesis by simp
qed

subsection \<open>The scan for the keywords\<close>

lemma scan_keywords_skip:
  "\<forall>l \<in> set pre. re_match U True KEYWORDS_PAT l = None \<Longrightarrow>
     scan_keywords U (pre @ ls) = scan_keywords U ls"
  by (induction pre) simp_all

lemma scan_keywords_match:
  "re_match U True KEYWORDS_PAT line = Some m \<Longrightarrow>
     scan_keywords U (line # post) =
       join (ustr '', '')
         (keyword_terms
            (strip_chars (ustr '';'')
               (strip (join (ustr '' '') (clean_line U (group m 2) # accumulate U post)))))"
  by (simp add: Let_def re_split_list_sep keyword_terms_def map_filter_strip)

text \<open>
  Claim C7. On the line \<open>Keywords: machine learning; graphs, optimization.\<close> the result of
  \<open>find_keywords\<close> is \<open>machine learning, graphs, optimization\<close>. In general, for every
  text whose first line matching \<open>KEYWORDS_PAT\<close> is \<open>line\<close>, with the lines \<open>post\<close> after it,
  and for every table of character data: the buffer is the cleaned rest of the header line
  followed by the accumulated lines, joined with spaces, stripped of white space and then of
  semicolons at both ends; the result is the buffer split at every semicolon and comma, each
  candidate stripped of surrounding white space, periods and semicolons, the empty candidates
  discarded, and the survivors joined with a comma and a space. No surviving term is empty,
  contains a semicolon or a comma, or begins or ends with a space, a period or a semicolon.
\<close>

theorem C7_keywords_split_strip_join:
  "find_keywords ascii_tables (ustr ''Keywords: machine learning; graphs, optimization.'') =
     ustr ''machine learning, graphs, optimization''
   \<and> (splitlines T = pre @ line # post
        \<and> (\<forall>l \<in> set pre. re_match U True KEYWORDS_PAT l = None)
        \<and> re_match U True KEYWORDS_PAT line = Some m
      \<longrightarrow> find_keywords U T =
            join (ustr '', '')
              (keyword_terms
                 (strip_chars (ustr '';'')
                    (strip (join (ustr '' '') (clean_line U (group m 2) # accumulate U post))))))
   \<and> (\<forall>t \<in> set (keyword_terms kws).
         t \<noteq> [] \<and> of_char CHR '';'' \<notin> set t \<and> of_char CHR '','' \<notin> set t
         \<and> hd t \<notin> set (ustr '' .;'') \<and> last t \<notin> set (ustr '' .;''))"
proof (intro conjI impI ballI)
  show "find_keywords ascii_tables (ustr ''Keywords: machine learning; graphs, optimization.'') =
     ustr ''machine learning, graphs, optimization''"
    by (simp add: text_eval re_eval pat_eval prog_eval)
next
  assume a: "splitlines T = pre @ line # post
        \<and> (\<forall>l \<in> set pre. re_match U True KEYWORDS_PAT l = None)
        \<and> re_match U True KEYWORDS_PAT line = Some m"
  then have "find_keywords U T = scan_keywords U (line # post)"
    by (simp add: find_keywords_def scan_keywords_skip)
  with a show "find_keywords U T =
            join (ustr '', '')
              (keyword_terms
                 (strip_chars (ustr '';'')
                    (strip (join (ustr '' '') (clean_line U (group m 2) # accumulate U post)))))"
    by (simp only: scan_keywords_match)
next
  fix t assume "t \<in> set (keyword_terms kws)"
  from keyword_terms_clean[OF this]
  show "t \<noteq> []" "of_char CHR '';'' \<notin> set t" "of_char CHR '','' \<notin> set t"
    "hd t \<notin> set (ustr '' .;'')" "last t \<notin> set (ustr '' .;'')" by simp_all
qed

lemma keywords_sample_lines:
  "splitlines keywords_sample =
     [ustr ''A Title''] @ ustr ''Keywords: machine learning;; graphs ,''
       # [ustr ''optimization.;'', [], ustr ''1 Introduction'']"
  by (simp add: keywords_sample_def text_eval)

lemma keywords_sample_title: "re_match ascii_tables True KEYWORDS_PAT (ustr ''A Title'') = None"
  by (simp add: text_eval re_eval pat_eval)

lemma keywords_sample_header:
  "map_option (\<lambda>m. group m 2)
     (re_match ascii_tables True KEYWORDS_PAT (ustr ''Keywords: machine learning;; graphs ,'')) =
   Some (ustr ''machine learning;; graphs ,'')"
  by (simp add: text_eval re_eval pat_eval)

lemma keywords_sample_buffer:
  "strip_chars (ustr '';'')
     (strip (join (ustr '' '')
        (clean_line ascii_tables (ustr ''machine learning;; graphs ,'')
         # accumulate ascii_tables [ustr ''optimization.;'', [], ustr ''1 Introduction'']))) =
   ustr ''machine learning;; graphs , optimization.''"
  by (simp add: text_eval re_eval pat_eval prog_eval)

lemma split_at_Cons:
  "split_at P (c # cs) =
     (if P c then [] # split_at P cs
      else (case split_at P cs of x # xs \<Rightarrow> (c # x) # xs | [] \<Rightarrow> []))"
  using split_at_not_Nil [of P cs] by (cases "split_at P cs") simp_all

lemma keywords_sample_split:
  "split_at is_list_sep (ustr ''machine learning;; graphs , optimization.'') =
     [ustr ''machine learning'', [], ustr '' graphs '', ustr '' optimization.'']"
  by (simp add: is_list_sep_def split_at_Cons text_eval del: split_at.simps(2))

lemma keywords_sample_terms:
  "keyword_terms (ustr ''machine learning;; graphs , optimization.'') =
     [ustr ''machine learning'', ustr ''graphs'', ustr ''optimization'']"
  unfolding keyword_terms_def keywords_sample_split by (simp add: text_eval)

theorem C7_keywords_split_strip_join_witness:
  "split_at is_list_sep (ustr ''machine learning;; graphs , optimization.'') =
     [ustr ''machine learning'', [], ustr '' graphs '', ustr '' optimization.'']
   \<and> keyword_terms (ustr ''machine learning;; graphs , optimization.'') =
     [ustr ''machine learning'', ustr ''graphs'', ustr ''optimization'']
   \<and> find_keywords ascii_tables keywords_sample = ustr ''machine learning, graphs, optimization''"
proof -
  from keywords_sample_header obtain m where
    m: "re_match ascii_tables True KEYWORDS_PAT (ustr ''Keywords: machine learning;; graphs ,'') = Some m"
    and g: "group m 2 = ustr ''machine learning;; graphs ,''" by auto
  have pre: "\<forall>l \<in> set [ustr ''A Title'']. re_match ascii_tables True KEYWORDS_PAT l = None"
    using keywords_sample_title by simp
  from C7_keywords_split_strip_join[of keywords_sample "[ustr ''A Title'']"
      "ustr ''Keywords: machine learning;; graphs ,''"
      "[ustr ''optimization.;'', [], ustr ''1 Introduction'']" ascii_tables m]
    keywords_sample_lines pre m
  have "find_keywords ascii_tables keywords_sample =
          join (ustr '', '')
            (keyword_terms
               (strip_chars (ustr '';'')
                  (strip (join (ustr '' '')
                     (clean_line ascii_tables (group m 2)
                      # accumulate ascii_tables [ustr ''optimization.;'', [], ustr ''1 Introduction''])))))"
    by blast
  then have "find_keywords ascii_tables keywords_sample =
      join (ustr '', '') [ustr ''machine learning'', ustr ''graphs'', ustr ''optimization'']"
    by (simp only: g keywords_sample_buffer keywords_sample_terms)
  then have "find_keywords ascii_tables keywords_sample =
      ustr ''machine learning, graphs, optimization''"
    by (simp add: text_eval)
  with keywords_sample_split keywords_sample_terms show ?thesis by (intro conjI)
qed

section \<open>The record assembler: claims C5, C6 and C10\<close>

text \<open>
  Claim C5. For every input whose declared type (the variable \<open>ext\<close>) is neither \<open>pdf\<close>
  nor \<open>docx\<close>, \<open>parse_file\<close> returns the record with \<open>authors\<close>, \<open>abstract\<close> and
  \<open>keywords\<close> empty, \<open>notes\<close> = "Unsupported file type" and the file name unchanged,
  and it calls none of the extractors.
\<close>

theorem C5_unsupported_type:
  assumes "file_ext U fname \<noteq> ustr ''pdf''" and "file_ext U fname \<noteq> ustr ''docx''"
  shows "parse_file_calls U rd file fname =
           (\<lparr>filename = fname, authors = [], abstract = [], keywords' = [],
             notes' = ustr ''Unsupported file type''\<rparr>, [])"
  using assms by (simp add: parse_file_calls_def)

lemma file_ext_notes_txt: "file_ext ascii_tables (ustr ''notes.txt'') = ustr ''txt''"
  by (simp add: file_ext_def py_split_def ustr_def lower_def ascii_tables_def)

text \<open>The declared type \<open>txt\<close> of scenario F.\<close>

theorem C5_unsupported_type_witness:
  "file_ext ascii_tables (ustr ''notes.txt'') = ustr ''txt''
   \<and> parse_file_calls ascii_tables failing_readers () (ustr ''notes.txt'') =
       (\<lparr>filename = ustr ''notes.txt'', authors = [], abstract = [], keywords' = [],
         notes' = ustr ''Unsupported file type''\<rparr>, [])"
proof -
  have "file_ext ascii_tables (ustr ''notes.txt'') \<noteq> ustr ''pdf''" "file_ext ascii_tables (ustr ''notes.txt'') \<noteq> ustr ''docx''"
    unfolding file_ext_notes_txt by (simp_all add: ustr_def)
  from C5_unsupported_type[OF this] show ?thesis
    by (simp add: file_ext_notes_txt)
qed

text \<open>
  Claim C6. For a \<open>pdf\<close> input, \<open>notes\<close> is "Possible scanned/non-searchable PDF." when
  the extracted text has fewer than 200 characters that are not white space, whatever the
  other fields hold, and is empty otherwise; for a \<open>docx\<close> input \<open>notes\<close> is empty.
\<close>

theorem C6_scanned_pdf_note:
  "(file_ext U fname = ustr ''pdf'' \<longrightarrow>
      notes' (parse_file U rd file fname) =
        (if length (filter (\<lambda>c. \<not> is_space c) (extract_text_from_pdf rd file)) < 200
         then ustr ''Possible scanned/non-searchable PDF.'' else []))
   \<and> (file_ext U fname = ustr ''docx'' \<longrightarrow> notes' (parse_file U rd file fname) = [])"
proof -
  have "ustr ''docx'' \<noteq> ustr ''pdf''" by (simp add: ustr_def)
  then show ?thesis
    by (simp add: parse_file_def parse_file_calls_def assemble_def Let_def re_sub_ws_delete')
qed

theorem C6_scanned_pdf_note_witness:
  "file_ext ascii_tables (ustr ''scan.pdf'') = ustr ''pdf''
   \<and> extract_text_from_pdf short_pdf () = ustr ''Scan 1'' @ [10]
   \<and> notes' (parse_file ascii_tables short_pdf () (ustr ''scan.pdf'')) = ustr ''Possible scanned/non-searchable PDF.''
   \<and> file_ext ascii_tables (ustr ''scan.docx'') = ustr ''docx''
   \<and> notes' (parse_file ascii_tables short_pdf () (ustr ''scan.docx'')) = []"
proof -
  have e1: "file_ext ascii_tables (ustr ''scan.pdf'') = ustr ''pdf''"
    by (simp add: file_ext_def py_split_def ustr_def lower_def ascii_tables_def)
  have e2: "file_ext ascii_tables (ustr ''scan.docx'') = ustr ''docx''"
    by (simp add: file_ext_def py_split_def ustr_def lower_def ascii_tables_def)
  have t: "extract_text_from_pdf short_pdf () = ustr ''Scan 1'' @ [10]"
    by (simp add: extract_text_from_pdf_def short_pdf_def)
  show ?thesis
    using C6_scanned_pdf_note[of ascii_tables "ustr ''scan.pdf''" short_pdf "()"]
      C6_scanned_pdf_note[of ascii_tables "ustr ''scan.docx''" short_pdf "()"]
    by (simp add: e1 e2 t) (simp add: ustr_def)
qed

text \<open>
  Claim C10, as amended. \<open>parse_file\<close> chooses by the lower-cased text after the last
  \<open>.\<close> of the file name, which is the whole lower-cased name when the name has no dot:
  the PDF handling when it is \<open>pdf\<close>, the Word handling when it is \<open>docx\<close>, the
  unsupported record otherwise. So \<open>.PDF\<close> and \<open>.DOCX\<close> are supported, and a name
  without a dot is unsupported unless the name itself is \<open>pdf\<close> or \<open>docx\<close> in some case.
\<close>

theorem C10_extension_dispatch:
  "(46 \<notin> set suf \<longrightarrow> file_ext U (pre @ ustr ''.'' @ suf) = str_lower U suf)
   \<and> (46 \<notin> set fname \<longrightarrow> file_ext U fname = str_lower U fname)
   \<and> parse_file_calls U rd file fname =
       (if file_ext U fname = ustr ''pdf''
        then (assemble U fname (ustr ''pdf'') (extract_text_from_pdf rd file),
              [Call_extract_text_from_pdf, Call_find_authors, Call_find_abstract, Call_find_keywords])
        else if file_ext U fname = ustr ''docx''
        then (assemble U fname (ustr ''docx'') (extract_text_from_docx rd file),
              [Call_extract_text_from_docx, Call_find_authors, Call_find_abstract, Call_find_keywords])
        else (\<lparr>filename = fname, authors = [], abstract = [], keywords' = [],
               notes' = ustr ''Unsupported file type''\<rparr>, []))"
  by (simp add: parse_file_calls_def file_ext_no_dot file_ext_last_dot ustr_dot)

theorem C10_extension_dispatch_witness:
  "file_ext ascii_tables (ustr ''Paper.v2'' @ ustr ''.'' @ ustr ''PDF'') = ustr ''pdf''
   \<and> file_ext ascii_tables (ustr ''README'') = ustr ''readme''
   \<and> snd (parse_file_calls ascii_tables failing_readers () (ustr ''Paper.v2.PDF'')) =
       [Call_extract_text_from_pdf, Call_find_authors, Call_find_abstract, Call_find_keywords]
   \<and> snd (parse_file_calls ascii_tables failing_readers () (ustr ''README'')) = []"
proof -
  have a: "46 \<notin> set (ustr ''PDF'')" "46 \<notin> set (ustr ''README'')"
    by (simp_all add: ustr_def)
  have b: "ustr ''Paper.v2.PDF'' = ustr ''Paper.v2'' @ ustr ''.'' @ ustr ''PDF''"
    by (simp add: ustr_def)
  have c: "str_lower ascii_tables (ustr ''PDF'') = ustr ''pdf''"
    "str_lower ascii_tables (ustr ''README'') = ustr ''readme''"
    by (simp_all add: ascii_tables_def ustr_def lower_def)
  have d: "ustr ''readme'' \<noteq> ustr ''pdf''" "ustr ''readme'' \<noteq> ustr ''docx''"
    by (simp_all add: ustr_def)
  show ?thesis
    using C10_extension_dispatch[of "ustr ''PDF''" ascii_tables "ustr ''Paper.v2''"
        "ustr ''README''" failing_readers "()"]
      C10_extension_dispatch[of "ustr ''PDF''" ascii_tables "ustr ''Paper.v2''"
        "ustr ''Paper.v2.PDF''" failing_readers "()"]
    by (simp add: a b c d)
qed

text \<open>
  Claim C10 as stated says that a file name with no dot is unsupported. A file named
  \<open>pdf\<close>, without a dot, is read as a PDF.
\<close>

theorem C10_no_dot_counterexample:
  "46 \<notin> set (ustr ''pdf'')
   \<and> snd (parse_file_calls ascii_tables failing_readers () (ustr ''pdf'')) =
       [Call_extract_text_from_pdf, Call_find_authors, Call_find_abstract, Call_find_keywords]
   \<and> notes' (parse_file ascii_tables failing_readers () (ustr ''pdf'')) = ustr ''Possible scanned/non-searchable PDF.''"
proof -
  have e: "file_ext ascii_tables (ustr ''pdf'') = ustr ''pdf''"
    by (simp add: file_ext_def py_split_def ustr_def lower_def ascii_tables_def)
  have t: "extract_text_from_pdf failing_readers () = []"
    by (simp add: extract_text_from_pdf_def failing_readers_def)
  show ?thesis
    by (simp add: parse_file_def parse_file_calls_def e t assemble_def Let_def re_sub_def)
      (simp add: ustr_def)
qed

section \<open>The author extractor: claims C2 and C9\<close>

subsection \<open>The loop that removes repeated names\<close>

lemma set_ordered_names: "set (ordered_names seen ns) = strip ` set ns - seen"
  by (induction ns arbitrary: seen) (auto simp: Let_def)

lemma distinct_ordered_names: "distinct (ordered_names seen ns)"
  by (induction ns arbitrary: seen) (auto simp: Let_def set_ordered_names)

lemma ordered_names_not_Nil: "ns \<noteq> [] \<Longrightarrow> ordered_names {} ns \<noteq> []"
  by (cases ns) (simp_all add: Let_def)

lemma first_index_Cons_other: "y \<noteq> x \<Longrightarrow> first_index (x # xs) y = Suc (first_index xs y)"
  by (simp add: first_index_def)

lemma first_index_Cons_same: "first_index (x # xs) x = 0"
  by (simp add: first_index_def)

lemma sorted_wrt_shift:
  assumes "sorted_wrt (\<lambda>a b. first_index xs a < first_index xs b) ys" and "x \<notin> set ys"
  shows "sorted_wrt (\<lambda>a b. first_index (x # xs) a < first_index (x # xs) b) ys"
proof (rule sorted_wrt_mono_rel[OF _ assms(1)])
  fix a b
  assume "a \<in> set ys" and "b \<in> set ys" and lt: "first_index xs a < first_index xs b"
  with assms(2) have "a \<noteq> x" and "b \<noteq> x" by auto
  with lt show "first_index (x # xs) a < first_index (x # xs) b"
    by (simp add: first_index_Cons_other)
qed

lemma ordered_names_in_order:
  "sorted_wrt (\<lambda>a b. first_index (map strip ns) a < first_index (map strip ns) b)
     (ordered_names seen ns)"
proof (induction ns arbitrary: seen)
  case Nil
  show ?case by simp
next
  case (Cons n ns)
  show ?case
  proof (cases "strip n \<in> seen")
    case True
    then have "strip n \<notin> set (ordered_names seen ns)" by (simp add: set_ordered_names)
    from sorted_wrt_shift[OF Cons.IH this] True show ?thesis by (simp add: Let_def)
  next
    case False
    have nin: "strip n \<notin> set (ordered_names (insert (strip n) seen) ns)"
      by (simp add: set_ordered_names)
    have "\<forall>y \<in> set (ordered_names (insert (strip n) seen) ns).
            first_index (strip n # map strip ns) (strip n) < first_index (strip n # map strip ns) y"
    proof
      fix y
      assume "y \<in> set (ordered_names (insert (strip n) seen) ns)"
      with nin have "y \<noteq> strip n" by auto
      then show "first_index (strip n # map strip ns) (strip n) < first_index (strip n # map strip ns) y"
        by (simp add: first_index_Cons_same first_index_Cons_other)
    qed
    with sorted_wrt_shift[OF Cons.IH nin] False show ?thesis by (simp add: Let_def)
  qed
qed

subsection \<open>The loop over the filtered lines\<close>

lemma scan_authors_find:
  "scan_authors U lns =
     (case List.find (accepted_line U) lns of
        None \<Rightarrow> []
      | Some ln \<Rightarrow> join (ustr '', '') (ordered_names {} (re_findall U False NAME_PAT ln)))"
proof (induction lns)
  case Nil
  show ?case by simp
next
  case (Cons ln lns)
  have step: "scan_authors U (ln # lns) =
      (if accepted_line U ln
       then (if ordered_names {} (re_findall U False NAME_PAT ln) \<noteq> []
             then join (ustr '', '') (ordered_names {} (re_findall U False NAME_PAT ln))
             else scan_authors U lns)
       else scan_authors U lns)"
    by (auto simp: Let_def accepted_line_def)
  show ?case
  proof (cases "accepted_line U ln")
    case True
    then have "re_findall U False NAME_PAT ln \<noteq> []" by (auto simp: accepted_line_def)
    then have "ordered_names {} (re_findall U False NAME_PAT ln) \<noteq> []"
      by (rule ordered_names_not_Nil)
    with True show ?thesis unfolding step by simp
  next
    case False
    with Cons.IH show ?thesis unfolding step by simp
  qed
qed

text \<open>
  Claim C2, as amended. \<open>find_authors\<close> takes the first of the first 8 filtered lines
  that is accepted, and a line is accepted exactly when the name pattern gives at least
  two matches on it, a name that occurs twice counting twice, or exactly one match while
  the line has a comma or \<open>and\<close> between two spaces in any letter case.
\<close>

theorem C2_author_line_accepted:
  "find_authors U T =
     (case List.find (accepted_line U) (take 8 (filtered_lines U T)) of
        None \<Rightarrow> []
      | Some ln \<Rightarrow> join (ustr '', '') (ordered_names {} (re_findall U False NAME_PAT ln)))"
  by (simp add: find_authors_def scan_authors_find)

text \<open>
  Claim C2 as stated asks for two distinct names. The line \<open>John Smith; John Smith\<close> has
  two matches of one name, no comma and no \<open>and\<close>, and is accepted.
\<close>

theorem C2_repeated_name_counterexample:
  "re_findall ascii_tables False NAME_PAT (ustr ''John Smith; John Smith'') = [ustr ''John Smith'', ustr ''John Smith'']
   \<and> \<not> contains (ustr '','') (ustr ''John Smith; John Smith'')
   \<and> \<not> contains (ustr '' and '') (map lower (ustr ''John Smith; John Smith''))
   \<and> filtered_lines ascii_tables (ustr ''John Smith; John Smith'') = [ustr ''John Smith; John Smith'']
   \<and> find_authors ascii_tables (ustr ''John Smith; John Smith'') = ustr ''John Smith''"
  by (simp add: text_eval re_eval pat_eval prog_eval)

subsection \<open>The names have no comma\<close>

lemma NAME_PAT_reads: "reads_only U False (\<lambda>c. c \<noteq> 44) NAME_PAT"
  by (auto simp: NAME_PAT_def Seqs_def Many1_def Opt_def Lit_def upper_letter_def lower_letter_def
      sp_def in_class_def is_space_def)

lemma first_match_group_only:
  assumes "first_match U ic r \<lparr>prev = p, rest = s, caps = []\<rparr> = Some m" and "reads_only U ic P r"
  shows "list_all P (group m n)"
proof -
  from assms(1) have "m \<in> set (rmatch U ic r \<lparr>prev = p, rest = s, caps = []\<rparr>)"
    by (auto simp: first_match_def split: list.splits)
  from rmatch_caps_only[OF this assms(2)] have "\<forall>(k, g) \<in> set (caps m). list_all P g" by simp
  then show ?thesis
    by (auto simp: group_def split: option.splits dest!: map_of_SomeD)
qed

lemma re_findall_from_only:
  "reads_only U ic P r \<Longrightarrow> g \<in> set (re_findall_from U ic r p s) \<Longrightarrow> list_all P g"
proof (induction U ic r p s rule: re_findall_from.induct)
  case (1 U ic r p)
  then show ?case by simp
next
  case (2 U ic r p c cs)
  show ?case
  proof (cases "first_match U ic r \<lparr>prev = p, rest = c # cs, caps = []\<rparr>")
    case None
    with 2 show ?thesis by simp
  next
    case (Some m)
    show ?thesis
    proof (cases "length (rest m) < length (c # cs)")
      case True
      with 2 Some first_match_group_only[OF Some "2.prems"(1), of 1] show ?thesis by auto
    next
      case False
      with 2 Some show ?thesis by simp
    qed
  qed
qed

lemma set_strip: "set (strip s) \<subseteq> set s"
proof -
  have "set (dropWhile is_space (rev (dropWhile is_space s))) \<subseteq> set (rev (dropWhile is_space s))"
    by (auto dest: set_dropWhileD)
  also have "\<dots> \<subseteq> set s" by (auto dest: set_dropWhileD)
  finally show ?thesis by (simp add: strip_def)
qed

lemma names_no_comma:
  assumes "x \<in> set (ordered_names seen (re_findall U False NAME_PAT ln))"
  shows "44 \<notin> set x"
proof -
  from assms obtain g where g: "g \<in> set (re_findall U False NAME_PAT ln)" and x: "x = strip g"
    by (auto simp: set_ordered_names)
  from re_findall_from_only[OF NAME_PAT_reads] g have "list_all (\<lambda>c. c \<noteq> 44) g"
    by (simp add: re_findall_def)
  then have "44 \<notin> set g" by (auto simp: list_all_iff)
  with set_strip[of g] x show ?thesis by auto
qed

subsection \<open>Splitting a joined list\<close>

lemma split_from_skip:
  "c0 \<notin> set x \<Longrightarrow> split_from (c0 # sep) cur (x @ s) = split_from (c0 # sep) (cur @ x) s"
  by (induction x arbitrary: cur) auto

lemma split_from_join:
  "xs \<noteq> [] \<Longrightarrow> \<forall>x \<in> set xs. c0 \<notin> set x \<Longrightarrow>
     split_from (c0 # sep) cur (join (c0 # sep) xs) = (cur @ hd xs) # tl xs"
proof (induction xs arbitrary: cur)
  case Nil
  then show ?case by simp
next
  case (Cons x xs)
  show ?case
  proof (cases xs)
    case Nil
    from Cons.prems have "c0 \<notin> set x" by simp
    from split_from_skip[OF this, of sep cur "[]"] Nil show ?thesis by simp
  next
    case (Cons y ys)
    from Cons.prems have x: "c0 \<notin> set x" by simp
    have "split_from (c0 # sep) (cur @ x) ((c0 # sep) @ join (c0 # sep) xs)
            = (cur @ x) # split_from (c0 # sep) [] (join (c0 # sep) xs)"
      by simp
    moreover from Cons.IH[of "[]"] Cons.prems Cons
    have "split_from (c0 # sep) [] (join (c0 # sep) xs) = xs" by simp
    ultimately show ?thesis
      using split_from_skip[OF x, of sep cur "(c0 # sep) @ join (c0 # sep) xs"] Cons by simp
  qed
qed

lemma py_split_join:
  "xs \<noteq> [] \<Longrightarrow> \<forall>x \<in> set xs. 44 \<notin> set x \<Longrightarrow> py_split (ustr '', '') (join (ustr '', '') xs) = xs"
proof -
  assume a: "xs \<noteq> []" "\<forall>x \<in> set xs. 44 \<notin> set x"
  have s: "ustr '', '' = 44 # [32]" by (simp add: ustr_def)
  from split_from_join[OF a, of "[32]" "[]"] a(1) show ?thesis
    by (simp add: py_split_def s)
qed

text \<open>
  Claim C9. For all text \<open>T\<close>, the names of \<open>find_authors T\<close>, read back by splitting at
  a comma and a space, have no repeated entry; and when a line was accepted, they are the
  names matched on that line, each once, in the order of their first occurrences.
\<close>

theorem C9_authors_distinct_in_order:
  "distinct (py_split (ustr '', '') (find_authors U T))
   \<and> (List.find (accepted_line U) (take 8 (filtered_lines U T)) = None
      \<or> (\<exists>ln. List.find (accepted_line U) (take 8 (filtered_lines U T)) = Some ln
            \<and> set (py_split (ustr '', '') (find_authors U T)) =
                set (map strip (re_findall U False NAME_PAT ln))
            \<and> sorted_wrt (\<lambda>a b. first_index (map strip (re_findall U False NAME_PAT ln)) a
                                 < first_index (map strip (re_findall U False NAME_PAT ln)) b)
                 (py_split (ustr '', '') (find_authors U T))))"
proof (cases "List.find (accepted_line U) (take 8 (filtered_lines U T))")
  case None
  then have "find_authors U T = []" by (simp add: find_authors_def scan_authors_find)
  with None show ?thesis by (simp add: py_split_def)
next
  case (Some ln)
  let ?names = "re_findall U False NAME_PAT ln"
  let ?ordered = "ordered_names {} ?names"
  from Some have fa: "find_authors U T = join (ustr '', '') ?ordered"
    by (simp add: find_authors_def scan_authors_find)
  from Some have "accepted_line U ln" by (auto simp: find_Some_iff)
  then have "?names \<noteq> []" by (auto simp: accepted_line_def)
  then have ne: "?ordered \<noteq> []" by (rule ordered_names_not_Nil)
  have "\<forall>x \<in> set ?ordered. 44 \<notin> set x" using names_no_comma by blast
  from py_split_join[OF ne this] fa
  have sp: "py_split (ustr '', '') (find_authors U T) = ?ordered" by simp
  show ?thesis
    unfolding sp using Some
    by (simp add: distinct_ordered_names set_ordered_names ordered_names_in_order)
qed

end
